theory Spec2Isabelle
  imports Main "HOL-Library.Monad_Syntax"
begin

section \<open>Byte strings and writers\<close>

text \<open>
  Go's \<open>[]byte\<close> and \<open>string\<close> values are modelled as \<^typ>\<open>string\<close> (a list of
  8-bit characters). An \<open>io.Writer\<close> is modelled by the bytes written to it so far;
  \<open>w.Write(b)\<close> is \<open>w @ b\<close>.
\<close>

text \<open>
  \<open>xs[lo:hi]\<close>. Every use below is guarded by the source so that
  \<open>lo \<le> hi \<le> len(xs)\<close>.
\<close>

definition slice :: "'a list \<Rightarrow> nat \<Rightarrow> nat \<Rightarrow> 'a list" where
  "slice xs lo hi = take (hi - lo) (drop lo xs)"

section \<open>HTML escaping (\<open>escapeSingleChar\<close>, \<open>attrEscape\<close>)\<close>

definition escapeSingleChar :: "char \<Rightarrow> string \<times> bool" where
  "escapeSingleChar ch =
     (if ch = CHR 0x22 then (''&quot;'', True)
      else if ch = CHR ''&'' then (''&amp;'', True)
      else if ch = CHR ''<'' then (''&lt;'', True)
      else if ch = CHR ''>'' then (''&gt;'', True)
      else ('''', False))"

text \<open>
  The body of \<open>for i, ch := range src\<close>: the loop state is \<open>org\<close> and the writer.
\<close>

definition attrEscape_body :: "string \<Rightarrow> nat \<Rightarrow> nat \<times> string \<Rightarrow> nat \<times> string" where
  "attrEscape_body src i st =
     (case st of (org, w) \<Rightarrow>
        (case escapeSingleChar (src ! i) of (entity, ok) \<Rightarrow>
           if ok then (i + 1, (if i > org then w @ slice src org i else w) @ entity)
           else (org, w)))"

definition attrEscape :: "string \<Rightarrow> string \<Rightarrow> string" where
  "attrEscape w src =
     (case fold (attrEscape_body src) [0..<length src] (0, w) of (org, w') \<Rightarrow>
        if org < length src then w' @ drop org src else w')"

text \<open>
  The per-byte escape as the specification words it: the bytes \<open>" & < >\<close> are replaced by
  \<open>&quot; &amp; &lt; &gt;\<close>, every other byte is copied.
\<close>

definition escape_byte :: "char \<Rightarrow> string" where
  "escape_byte c =
     (if c = CHR 0x22 then ''&quot;''
      else if c = CHR ''&'' then ''&amp;''
      else if c = CHR ''<'' then ''&lt;''
      else if c = CHR ''>'' then ''&gt;''
      else [c])"

section \<open>Formatting (\<open>fmt.Sprintf\<close>) and byte search\<close>

text \<open>The verb \<open>%d\<close> on an \<open>int\<close>: decimal digits, with a minus sign when negative.\<close>

fun digits :: "nat \<Rightarrow> string" where
  "digits n = (if n < 10 then [''0123456789'' ! n]
               else digits (n div 10) @ [''0123456789'' ! (n mod 10)])"

definition format_d :: "int \<Rightarrow> string" where
  "format_d i = (if i < 0 then CHR ''-'' # digits (nat (- i)) else digits (nat i))"

text \<open>
  \<open>bytes.IndexAny(s, chars)\<close> for ASCII \<open>chars\<close>: the index of the first byte of \<open>s\<close>
  that occurs in \<open>chars\<close>, or \<open>-1\<close>.
\<close>

fun IndexAny :: "string \<Rightarrow> string \<Rightarrow> int" where
  "IndexAny [] chars = - 1"
| "IndexAny (c # cs) chars =
     (if c \<in> set chars then 0
      else (let r = IndexAny cs chars in if r < 0 then - 1 else r + 1))"

text \<open>
  \<open>bytes.Split(src, "\n")\<close>: the pieces between newlines; an input with \<open>k\<close> newlines
  yields \<open>k + 1\<close> pieces, so a newline-terminated input ends with an empty piece.
\<close>

fun split_from :: "string \<Rightarrow> string \<Rightarrow> string list" where
  "split_from piece [] = [piece]"
| "split_from piece (c # cs) =
     (if c = CHR 0x0A then piece # split_from [] cs else split_from (piece @ [c]) cs)"

definition split_nl :: "string \<Rightarrow> string list" where
  "split_nl src = split_from [] src"

text \<open>
  \<open>xs[i]\<close> with Go's bounds check: \<open>None\<close> is the run-time panic
  (index out of range).
\<close>

definition at_index :: "'a list \<Rightarrow> int \<Rightarrow> 'a option" where
  "at_index xs i = (if 0 \<le> i \<and> i < int (length xs) then Some (xs ! nat i) else None)"

section \<open>The document tree and the external collaborators\<close>

text \<open>The fields of \<open>bf.Node\<close> that the two rendering hooks read. A pointer field holds
  the type of the node it points to, \<open>None\<close> for \<open>nil\<close>.\<close>

datatype node_type = Document | BlockQuote | List | Item | Paragraph | Heading
  | HorizontalRule | Emph | Strong | Del | Link | Image | Text | HTMLBlock | CodeBlock
  | Softbreak | Hardbreak | Code | HTMLSpan | Table | TableCell | TableHead | TableBody
  | TableRow

datatype walk_status = GoToNext | SkipChildren | Terminate

record node =
  Type :: node_type
  Prev :: "node_type option"
  Parent :: "node_type option"
  Literal :: string
  Level :: int
  Info :: string

text \<open>\<open>html.Node\<close>: node type, data, and the children in sibling order.\<close>

datatype html_node_type = ErrorNode | TextNode | DocumentNode | ElementNode | CommentNode
  | DoctypeNode

datatype html_node = HtmlNode (NType: html_node_type) (Data: string) (Children: "html_node list")

text \<open>\<open>annotate.Annotation\<close>.\<close>

record annotation =
  Start :: int
  End :: int
  Left :: string
  Right :: string
  WantInner :: int

text \<open>
  The packages the source imports are parameters of the model. A call that returns an
  error is \<open>None\<close>. \<open>HighlightedDiffFunc\<close> returns the two segment lists it stores
  in \<open>sectionSegments\<close>; \<open>annotate_Annotate\<close> is
  \<open>annotate.Annotate(src, anns, template.HTMLEscape)\<close>.
\<close>

record collaborators =
  html_Parse :: "string \<Rightarrow> html_node option"
  html_UnescapeString :: "string \<Rightarrow> string"
  sanitized_anchor_name_Create :: "string \<Rightarrow> string"
  highlight_go_Print :: "string \<Rightarrow> string option"
  highlight_diff_Annotate :: "string \<Rightarrow> annotation list option"
  HighlightedDiffFunc :: "string \<Rightarrow> string \<Rightarrow> int \<times> int \<Rightarrow> annotation list \<times> annotation list"
  sort_Sort :: "annotation list \<Rightarrow> annotation list"
  annotate_Annotate :: "string \<Rightarrow> annotation list \<Rightarrow> string option"

section \<open>Headings (\<open>extractText\<close>, \<open>heading\<close>)\<close>

fun extractText :: "html_node \<Rightarrow> string" where
  "extractText (HtmlNode t d cs) =
     fold (\<lambda>c out. if NType c = TextNode then out @ Data c else out @ extractText c) cs []"

text \<open>The locals \<open>textContent\<close> and \<open>anchorName\<close> of \<open>heading\<close>.\<close>

definition textContent :: "collaborators \<Rightarrow> node \<Rightarrow> string" where
  "textContent ext node =
     (case html_Parse ext (Literal node) of
        Some htmlNode \<Rightarrow> extractText htmlNode
      | None \<Rightarrow> html_UnescapeString ext (Literal node))"

definition anchorName :: "collaborators \<Rightarrow> node \<Rightarrow> string" where
  "anchorName ext node = sanitized_anchor_name_Create ext (textContent ext node)"

definition heading :: "collaborators \<Rightarrow> string \<Rightarrow> node \<Rightarrow> bool \<Rightarrow> string \<times> walk_status" where
  \<open>heading ext w node entering =
     (let w1 = (if Prev node \<noteq> None then w @ [CHR 0x0A] else w);
          w2 = w1 @ ''<h'' @ format_d (Level node) @ ''><a name="'' @ anchorName ext node
                  @ ''" class="anchor" href="#'' @ anchorName ext node
                  @ ''" rel="nofollow" aria-hidden="true"><span class="octicon octicon-link"></span></a>'';
          w3 = w2 @ ''</h'' @ format_d (Level node) @ ''>'' @ [CHR 0x0A]
      in (w3, GoToNext))\<close>

text \<open>
  The markup of the heading contract as the specification words it, for level \<open>L\<close>,
  slug \<open>S\<close> and inline content \<open>T\<close>.
\<close>

definition heading_contract :: "int \<Rightarrow> string \<Rightarrow> string \<Rightarrow> string" where
  \<open>heading_contract L S T =
     ''<h'' @ format_d L @ ''><a name="'' @ S @ ''" class="anchor" href="#'' @ S
       @ ''" rel="nofollow" aria-hidden="true"><span class="octicon octicon-link"></span></a>''
       @ T @ ''</h'' @ format_d L @ ''>''\<close>

section \<open>Language tags (\<open>findLang\<close>, \<open>appendLanguageAttr\<close>)\<close>

definition findLang :: "string \<Rightarrow> string" where
  "findLang info =
     (let endOfLang = IndexAny info [CHR 0x09, CHR '' '']
      in if endOfLang < 0 then [] else slice info 0 (nat endOfLang))"

definition appendLanguageAttr :: "string list \<Rightarrow> string \<Rightarrow> string list" where
  \<open>appendLanguageAttr attrs info =
     (let attrs1 = attrs @ [''class="highlight'']
      in if length info = 0 then (hd attrs1 @ [CHR 0x22]) # tl attrs1
         else (let i = IndexAny info [CHR 0x09, CHR '' ''];
                   endOfLang = (if i < 0 then int (length info) else i)
               in attrs1 @ [''highlight-'' @ slice info 0 (nat endOfLang) @ [CHR 0x22]]))\<close>

text \<open>
  The language tag as the specification words it: the info string up to the first
  whitespace byte, the whole info string when there is none.
\<close>

definition spec_tag :: "string \<Rightarrow> string" where
  "spec_tag info = takeWhile (\<lambda>c. c \<noteq> CHR 0x09 \<and> c \<noteq> CHR '' '') info"

section \<open>Diff blocks: the line scan of \<open>highlightCode\<close>\<close>

text \<open>\<open>lineStarts\<close>: the byte offset at which each line begins.\<close>

fun lineStarts_from :: "int \<Rightarrow> string list \<Rightarrow> int list" where
  "lineStarts_from offset [] = []"
| "lineStarts_from offset (l # ls) = offset # lineStarts_from (offset + int (length l) + 1) ls"

text \<open>The first byte of a line; the zero byte for an empty line.\<close>

definition lineFirstChar :: "string \<Rightarrow> char" where
  "lineFirstChar l = (if length l > 0 then l ! 0 else CHR 0x00)"

text \<open>The two coarse wrappers appended for a hunk.\<close>

definition gd_block :: "int \<Rightarrow> int \<Rightarrow> annotation" where
  \<open>gd_block s e = \<lparr>Start = s, End = e, Left = ''<span class="gd input-block">'',
                    Right = ''</span>'', WantInner = 0\<rparr>\<close>

definition gi_block :: "int \<Rightarrow> int \<Rightarrow> annotation" where
  \<open>gi_block s e = \<lparr>Start = s, End = e, Left = ''<span class="gi input-block">'',
                    Right = ''</span>'', WantInner = 0\<rparr>\<close>

text \<open>
  \<open>for line := from; line < to; line++ { content += "\x00" + string(lines[line][1:]) + "\n" }\<close>.
  Both \<open>lines[line]\<close> and the slice \<open>[1:]\<close> of an empty line panic.
\<close>

function content_loop :: "string list \<Rightarrow> int \<Rightarrow> int \<Rightarrow> string \<Rightarrow> string option" where
  "content_loop lines line to content =
     (if line < to then
        (case at_index lines line of
           None \<Rightarrow> None
         | Some l \<Rightarrow>
             if length l < 1 then None
             else content_loop lines (line + 1) to (content @ [CHR 0x00] @ drop 1 l @ [CHR 0x0A]))
      else Some content)"
  by pat_completeness auto
termination
  by (relation "measure (\<lambda>(lines, line, to, content). nat (to - line))") auto

declare content_loop.simps [simp del]

record diff_state =
  lastDel :: int
  lastIns :: int
  anns :: "annotation list"

type_synonym diff_func = "string \<Rightarrow> string \<Rightarrow> int \<times> int \<Rightarrow> annotation list \<times> annotation list"

text \<open>The \<open>default:\<close> branch when a run is pending: close out the hunk.\<close>

definition close_hunk ::
  "diff_func \<Rightarrow> string list \<Rightarrow> int list \<Rightarrow> nat \<Rightarrow> diff_state \<Rightarrow> diff_state option" where
  "close_hunk hdf lines lineStarts lineIndex st =
     (let lastDel1 = (if lastDel st = - 1 then lastIns st else lastDel st);
          lastIns1 = (if lastDel st = - 1 then lastIns st
                      else if lastIns st = - 1 then int lineIndex else lastIns st)
      in do {
        beginOffsetLeft \<leftarrow> at_index lineStarts lastDel1;
        endOffsetLeft \<leftarrow> at_index lineStarts lastIns1;
        beginOffsetRight \<leftarrow> at_index lineStarts lastIns1;
        endOffsetRight \<leftarrow> at_index lineStarts (int lineIndex);
        let anns1 = anns st @ [gd_block beginOffsetLeft endOffsetLeft,
                               gi_block beginOffsetRight endOffsetRight];
        anns2 \<leftarrow>
          (if CHR ''@'' \<noteq> lineFirstChar (lines ! lineIndex) then do {
             leftContent \<leftarrow> content_loop lines lastDel1 lastIns1 [];
             rightContent \<leftarrow> content_loop lines lastIns1 (int lineIndex) [];
             let sectionSegments = hdf leftContent rightContent (beginOffsetLeft, beginOffsetRight);
             Some (anns1 @ fst sectionSegments @ snd sectionSegments)
           } else Some anns1);
        Some \<lparr>lastDel = - 1, lastIns = - 1, anns = anns2\<rparr>
      })"

text \<open>The body of the scan for the line \<open>lineIndex < len(lines)\<close>.\<close>

definition diff_body ::
  "diff_func \<Rightarrow> string list \<Rightarrow> int list \<Rightarrow> nat \<Rightarrow> diff_state \<Rightarrow> diff_state option" where
  "diff_body hdf lines lineStarts lineIndex st =
     (if lineFirstChar (lines ! lineIndex) = CHR ''+'' then
        Some (if lastIns st = - 1 then st\<lparr>lastIns := int lineIndex\<rparr> else st)
      else if lineFirstChar (lines ! lineIndex) = CHR ''-'' then
        Some (if lastDel st = - 1 then st\<lparr>lastDel := int lineIndex\<rparr> else st)
      else if lastDel st \<noteq> - 1 \<or> lastIns st \<noteq> - 1 then
        close_hunk hdf lines lineStarts lineIndex st
      else Some (st\<lparr>lastDel := - 1, lastIns := - 1\<rparr>))"

text \<open>
  The scan over the first \<open>n\<close> lines, from \<open>lastDel, lastIns := -1, -1\<close>; the source
  runs it for \<open>n = len(lines)\<close>. \<open>None\<close> is a panic.
\<close>

definition diff_scan :: "diff_func \<Rightarrow> string list \<Rightarrow> annotation list \<Rightarrow> nat \<Rightarrow> diff_state option" where
  "diff_scan hdf lines anns0 n =
     fold (\<lambda>lineIndex s. Option.bind s (diff_body hdf lines (lineStarts_from 0 lines) lineIndex))
       [0..<n] (Some \<lparr>lastDel = - 1, lastIns = - 1, anns = anns0\<rparr>)"

text \<open>The annotations of a diff block as they stand before \<open>sort.Sort(anns)\<close>.\<close>

definition diff_anns :: "diff_func \<Rightarrow> string \<Rightarrow> annotation list \<Rightarrow> annotation list option" where
  "diff_anns hdf src anns0 =
     map_option anns (diff_scan hdf (split_nl src) anns0 (length (split_nl src)))"

section \<open>Code blocks (\<open>highlightCode\<close>, \<open>codeblock\<close>, \<open>RenderNode\<close>)\<close>

text \<open>The result is the pair \<open>(highlightedCode, ok)\<close>; \<open>None\<close> is a panic.\<close>

definition highlightCode :: "collaborators \<Rightarrow> string \<Rightarrow> string \<Rightarrow> (string \<times> bool) option" where
  "highlightCode ext src lang =
     (if lang = ''Go'' \<or> lang = ''Go-unformatted'' then
        (case highlight_go_Print ext src of
           None \<Rightarrow> Some ([], False)
         | Some buf \<Rightarrow> Some (buf, True))
      else if lang = ''diff'' then
        (case highlight_diff_Annotate ext src of
           None \<Rightarrow> Some ([], False)
         | Some anns0 \<Rightarrow> do {
             anns1 \<leftarrow> diff_anns (HighlightedDiffFunc ext) src anns0;
             (case annotate_Annotate ext src (sort_Sort ext anns1) of
                None \<Rightarrow> Some ([], False)
              | Some out \<Rightarrow> Some (out, True))
           })
      else Some ([], False))"

text \<open>
  \<open>node.Parent.Type\<close> in the last condition dereferences \<open>node.Parent\<close>: a panic when
  it is \<open>nil\<close>.
\<close>

definition codeblock ::
  "collaborators \<Rightarrow> string \<Rightarrow> node \<Rightarrow> bool \<Rightarrow> (string \<times> walk_status) option" where
  \<open>codeblock ext w node entering =
     (let lang = findLang (Info node);
          w1 = (if length lang = 0 then w @ ''<pre><code>''
                else w @ ''<div class="highlight highlight-'' @ lang @ ''">'')
      in do {
        (highlightedCode, ok) \<leftarrow> highlightCode ext (Literal node) lang;
        let w2 = (if ok then w1 @ highlightedCode else attrEscape w1 (Literal node));
        let w3 = (if length lang = 0 then w2 @ ''</code></pre>'' else w2 @ ''</pre></div>'');
        parentType \<leftarrow> Parent node;
        Some (w3, GoToNext)
      })\<close>

definition RenderNode ::
  "collaborators \<Rightarrow> string \<Rightarrow> node \<Rightarrow> bool \<Rightarrow> (string \<times> walk_status) option" where
  "RenderNode ext w node entering =
     (case Type node of
        Heading \<Rightarrow> Some (heading ext w node entering)
      | CodeBlock \<Rightarrow> codeblock ext w node entering
      | _ \<Rightarrow> Some (w, GoToNext))"

section \<open>Closed forms for the scan\<close>

text \<open>
  The values \<open>lastDel\<close> and \<open>lastIns\<close> take in \<open>close_hunk\<close> after the two
  assignments that fill in an unset marker.
\<close>

definition hunk_old :: "diff_state \<Rightarrow> int" where
  "hunk_old st = (if lastDel st = - 1 then lastIns st else lastDel st)"

definition hunk_new :: "diff_state \<Rightarrow> nat \<Rightarrow> int" where
  "hunk_new st lineIndex =
     (if lastDel st = - 1 then lastIns st
      else if lastIns st = - 1 then int lineIndex else lastIns st)"

text \<open>The text handed to the intra-line pass for the lines \<open>from \<le> line < to\<close>.\<close>

definition stripped :: "string list \<Rightarrow> int \<Rightarrow> int \<Rightarrow> string" where
  "stripped lines from to =
     concat (map (\<lambda>j. CHR 0x00 # drop 1 (lines ! j) @ [CHR 0x0A]) [nat from..<nat to])"

text \<open>What closing a hunk at \<open>lineIndex\<close> appends: the two wrappers, and the segments
  of the intra-line pass.\<close>

definition coarse_wrappers :: "string list \<Rightarrow> diff_state \<Rightarrow> nat \<Rightarrow> annotation list" where
  "coarse_wrappers lines st lineIndex =
     (let lineStarts = lineStarts_from 0 lines
      in [gd_block (lineStarts ! nat (hunk_old st)) (lineStarts ! nat (hunk_new st lineIndex)),
          gi_block (lineStarts ! nat (hunk_new st lineIndex)) (lineStarts ! lineIndex)])"

definition fine_pass :: "diff_func \<Rightarrow> string list \<Rightarrow> diff_state \<Rightarrow> nat \<Rightarrow> annotation list" where
  "fine_pass hdf lines st lineIndex =
     (let lineStarts = lineStarts_from 0 lines;
          sectionSegments =
            hdf (stripped lines (hunk_old st) (hunk_new st lineIndex))
                (stripped lines (hunk_new st lineIndex) (int lineIndex))
                (lineStarts ! nat (hunk_old st), lineStarts ! nat (hunk_new st lineIndex))
      in fst sectionSegments @ snd sectionSegments)"

text \<open>
  The invariant of the scan before line \<open>n\<close>: a set marker names an earlier line, and
  every line from it up to \<open>n\<close> is non-empty (it starts with \<open>+\<close> or \<open>-\<close>).
\<close>

definition pending_ok :: "string list \<Rightarrow> nat \<Rightarrow> int \<Rightarrow> bool" where
  "pending_ok lines n m \<longleftrightarrow>
     m = - 1 \<or> (0 \<le> m \<and> m < int n \<and> (\<forall>j. nat m \<le> j \<and> j < n \<longrightarrow> lines ! j \<noteq> []))"

definition scan_inv :: "string list \<Rightarrow> nat \<Rightarrow> diff_state \<Rightarrow> bool" where
  "scan_inv lines n st \<longleftrightarrow> pending_ok lines n (lastDel st) \<and> pending_ok lines n (lastIns st)"

section \<open>Sample collaborators\<close>

text \<open>A stand-in for the intra-line highlighter that marks the first byte of each side.\<close>

definition sample_hdf :: diff_func where
  \<open>sample_hdf leftContent rightContent offsets =
     ([\<lparr>Start = fst offsets, End = fst offsets + 1, Left = ''<span class="x">'',
        Right = ''</span>'', WantInner = 1\<rparr>],
      [\<lparr>Start = snd offsets, End = snd offsets + 1, Left = ''<span class="x">'',
        Right = ''</span>'', WantInner = 1\<rparr>])\<close>

text \<open>
  Stand-ins for the imported packages: \<open>html.Parse\<close> wraps plain text in the usual
  \<open>html/head/body\<close> skeleton, the slug function and the sort are the identity, and the
  highlighters only escape. \<open>failing_ext\<close> is the same with a Go highlighter that
  returns an error.
\<close>

definition sample_ext :: collaborators where
  "sample_ext = \<lparr>
     html_Parse = (\<lambda>s. Some (HtmlNode DocumentNode [] [HtmlNode ElementNode ''html''
                     [HtmlNode ElementNode ''head'' [], HtmlNode ElementNode ''body'' [HtmlNode TextNode s []]]])),
     html_UnescapeString = (\<lambda>s. s),
     sanitized_anchor_name_Create = (\<lambda>s. s),
     highlight_go_Print = (\<lambda>src. Some (concat (map escape_byte src))),
     highlight_diff_Annotate = (\<lambda>src. Some []),
     HighlightedDiffFunc = sample_hdf,
     sort_Sort = (\<lambda>anns. anns),
     annotate_Annotate = (\<lambda>src anns. Some (concat (map escape_byte src)))\<rparr>"

definition failing_ext :: collaborators where
  "failing_ext = sample_ext\<lparr>highlight_go_Print := (\<lambda>src. None)\<rparr>"

text \<open>Sample nodes.\<close>

definition hello_heading :: node where
  "hello_heading = \<lparr>Type = Heading, Prev = None, Parent = Some Document, Literal = ''Hello'',
                     Level = 1, Info = []\<rparr>"

definition code_node :: "string \<Rightarrow> string \<Rightarrow> node" where
  "code_node info src = \<lparr>Type = CodeBlock, Prev = None, Parent = Some Document, Literal = src,
                     Level = 0, Info = info\<rparr>"

section \<open>Notions used to state the code-block results\<close>

text \<open>
  What a code block carries between its wrappers: the highlighted code when
  \<open>highlightCode\<close> reports \<open>ok\<close>, the escaped source otherwise.
\<close>

definition block_body :: "collaborators \<Rightarrow> string \<Rightarrow> string \<Rightarrow> string" where
  "block_body ext src lang =
     (case highlightCode ext src lang of
        Some (highlightedCode, True) \<Rightarrow> highlightedCode
      | _ \<Rightarrow> concat (map escape_byte src))"

text \<open>
  The wrapper contract as the specification words it, for a block whose tag is or is not
  recognized by a highlighter.
\<close>

definition codeblock_contract :: "bool \<Rightarrow> string \<Rightarrow> string \<Rightarrow> string" where
  \<open>codeblock_contract recognized lang code =
     (if recognized then ''<div class="highlight highlight-'' @ lang @ ''"><pre>'' @ code @ ''</pre></div>''
      else ''<pre><code>'' @ code @ ''</code></pre>'')\<close>

text \<open>
  The language-specific highlighter returns an error: \<open>highlight_go.Print\<close> for the Go
  tags; for \<open>diff\<close>, \<open>highlight_diff.Annotate\<close> or the final \<open>annotate.Annotate\<close>.
\<close>

definition highlighter_error :: "collaborators \<Rightarrow> string \<Rightarrow> string \<Rightarrow> bool" where
  "highlighter_error ext src lang \<longleftrightarrow>
     ((lang = ''Go'' \<or> lang = ''Go-unformatted'') \<and> highlight_go_Print ext src = None)
     \<or> (lang = ''diff'' \<and>
         (case highlight_diff_Annotate ext src of
            None \<Rightarrow> True
          | Some anns0 \<Rightarrow>
              (case diff_anns (HighlightedDiffFunc ext) src anns0 of
                 None \<Rightarrow> False
               | Some anns1 \<Rightarrow> annotate_Annotate ext src (sort_Sort ext anns1) = None)))"

section \<open>Escaping is bytewise\<close>

lemma escape_byte_alt:
  "escape_byte c = (if snd (escapeSingleChar c) then fst (escapeSingleChar c) else [c])"
  by (simp add: escape_byte_def escapeSingleChar_def)

lemma attrEscape_body_pair:
  "attrEscape_body src i (org, w) =
     (if snd (escapeSingleChar (src ! i))
      then (Suc i, (if i > org then w @ slice src org i else w) @ fst (escapeSingleChar (src ! i)))
      else (org, w))"
  by (simp add: attrEscape_body_def split: prod.splits)

lemma concat_map_plain:
  "(\<forall>c \<in> set xs. escape_byte c = [c]) \<Longrightarrow> concat (map escape_byte xs) = xs"
  by (induction xs) auto

lemma slice_snoc: "lo \<le> n \<Longrightarrow> n < length xs \<Longrightarrow> slice xs lo (Suc n) = slice xs lo n @ [xs ! n]"
  by (simp add: slice_def Suc_diff_le take_Suc_conv_app_nth)

lemma take_as_slice: "lo \<le> n \<Longrightarrow> take n xs = take lo xs @ slice xs lo n"
  unfolding slice_def
  by (metis le_add_diff_inverse take_add)

lemma attrEscape_prefix:
  "n \<le> length src \<Longrightarrow>
   \<exists>org w'. fold (attrEscape_body src) [0..<n] (0, w) = (org, w') \<and> org \<le> n \<and>
      w' = w @ concat (map escape_byte (take org src)) \<and>
      (\<forall>c \<in> set (slice src org n). escape_byte c = [c])"
proof (induction n)
  case 0
  then show ?case by (simp add: slice_def)
next
  case (Suc n)
  then obtain org w' where st: "fold (attrEscape_body src) [0..<n] (0, w) = (org, w')"
    and le: "org \<le> n" and w': "w' = w @ concat (map escape_byte (take org src))"
    and plain: "\<forall>c \<in> set (slice src org n). escape_byte c = [c]"
    by auto
  from Suc.prems have n: "n < length src" by simp
  have tk: "take n src = take org src @ slice src org n" using le by (rule take_as_slice)
  have step: "fold (attrEscape_body src) [0..<Suc n] (0, w) = attrEscape_body src n (org, w')"
    using st by simp
  show ?case
  proof (cases "snd (escapeSingleChar (src ! n))")
    case True
    then have eb: "escape_byte (src ! n) = fst (escapeSingleChar (src ! n))"
      by (simp add: escape_byte_alt)
    have cc: "concat (map escape_byte (take (Suc n) src))
          = concat (map escape_byte (take org src)) @ slice src org n @ escape_byte (src ! n)"
      using n tk plain by (simp add: take_Suc_conv_app_nth concat_map_plain)
    have emp: "slice src org n = []" if "\<not> org < n"
      using that by (simp add: slice_def)
    have body: "attrEscape_body src n (org, w')
                = (Suc n, w' @ slice src org n @ escape_byte (src ! n))"
      unfolding attrEscape_body_pair eb using True emp by simp
    have "w' @ slice src org n @ escape_byte (src ! n)
          = w @ concat (map escape_byte (take (Suc n) src))"
      using w' cc by simp
    then show ?thesis
      unfolding step body by (simp add: slice_def)
  next
    case False
    then have eb: "escape_byte (src ! n) = [src ! n]"
      by (simp add: escape_byte_alt)
    have body: "attrEscape_body src n (org, w') = (org, w')"
      unfolding attrEscape_body_pair using False by simp
    have "\<forall>c \<in> set (slice src org (Suc n)). escape_byte c = [c]"
      using plain eb le n by (simp add: slice_snoc)
    then show ?thesis
      unfolding step body using le w' by simp
  qed
qed

lemma attrEscape_appends: "attrEscape w src = w @ concat (map escape_byte src)"
proof -
  obtain org w' where st: "fold (attrEscape_body src) [0..<length src] (0, w) = (org, w')"
    and le: "org \<le> length src" and w': "w' = w @ concat (map escape_byte (take org src))"
    and plain: "\<forall>c \<in> set (slice src org (length src)). escape_byte c = [c]"
    using attrEscape_prefix [of "length src" src w] by auto
  have sl: "slice src org (length src) = drop org src" by (simp add: slice_def)
  have d: "concat (map escape_byte (drop org src)) = drop org src"
    using plain sl concat_map_plain [of "drop org src"] by simp
  have "concat (map escape_byte src) = concat (map escape_byte (take org src @ drop org src))"
    by simp
  also have "\<dots> = concat (map escape_byte (take org src)) @ concat (map escape_byte (drop org src))"
    by (simp only: map_append concat_append)
  finally have "concat (map escape_byte (take org src)) @ drop org src = concat (map escape_byte src)"
    using d by simp
  then have full: "w' @ drop org src = w @ concat (map escape_byte src)"
    unfolding w' by simp
  have "org = length src \<Longrightarrow> w' = w' @ drop org src" by simp
  then show ?thesis
    unfolding attrEscape_def st using full le by (cases "org < length src") simp_all
qed

text \<open>
  Claim C9. For every byte sequence \<open>src\<close>, \<open>attrEscape\<close> appends to the writer the
  concatenation, in input order, of each byte's escape, so that no byte is dropped or
  duplicated; and the escape of a byte is the entity \<open>escapeSingleChar\<close> gives for the four
  bytes \<open>" & < >\<close> and the byte itself otherwise.
\<close>

theorem attrEscape_concat:
  "attrEscape w src = w @ concat (map escape_byte src)
   \<and> escape_byte c = (if snd (escapeSingleChar c) then fst (escapeSingleChar c) else [c])"
  using attrEscape_appends [of w src] escape_byte_alt [of c] by (rule conjI)

section \<open>The scan never panics\<close>

lemma length_lineStarts_from [simp]: "length (lineStarts_from offset lines) = length lines"
  by (induction lines arbitrary: offset) auto

lemma lineStarts_from_nth:
  "j < length lines \<Longrightarrow>
   lineStarts_from offset lines ! j = offset + (\<Sum>k<j. int (length (lines ! k)) + 1)"
proof (induction lines arbitrary: offset j)
  case Nil
  then show ?case by simp
next
  case (Cons l ls)
  show ?case
  proof (cases j)
    case 0
    then show ?thesis by simp
  next
    case (Suc i)
    with Cons.prems have "i < length ls" by simp
    then have ih: "lineStarts_from (offset + int (length l) + 1) ls ! i
                   = offset + int (length l) + 1 + (\<Sum>k<i. int (length (ls ! k)) + 1)"
      by (rule Cons.IH)
    have "(\<Sum>k<Suc i. int (length ((l # ls) ! k)) + 1)
          = (int (length l) + 1) + (\<Sum>k<i. int (length (ls ! k)) + 1)"
      by (simp add: sum.lessThan_Suc_shift del: sum.lessThan_Suc)
    with ih Suc show ?thesis by simp
  qed
qed

lemma at_index_nat: "j < length xs \<Longrightarrow> at_index xs (int j) = Some (xs ! j)"
  by (simp add: at_index_def)

lemma at_index_int: "0 \<le> i \<Longrightarrow> i < int (length xs) \<Longrightarrow> at_index xs i = Some (xs ! nat i)"
  by (simp add: at_index_def)

lemma content_loop_value:
  "0 \<le> a \<Longrightarrow> b \<le> int (length lines) \<Longrightarrow>
   (\<forall>j. nat a \<le> j \<and> int j < b \<longrightarrow> lines ! j \<noteq> []) \<Longrightarrow>
   content_loop lines a b acc = Some (acc @ stripped lines a b)"
proof (induction lines a b acc rule: content_loop.induct)
  case (1 lines line to content)
  show ?case
  proof (cases "line < to")
    case False
    then show ?thesis
      by (simp add: content_loop.simps [of lines line to content] stripped_def)
  next
    case True
    with "1.prems" have idx: "at_index lines line = Some (lines ! nat line)"
      by (simp add: at_index_def)
    from True "1.prems" have ne: "lines ! nat line \<noteq> []" by simp
    then have len: "\<not> length (lines ! nat line) < 1" by (cases "lines ! nat line") auto
    have rec: "content_loop lines (line + 1) to (content @ [CHR 0x00] @ drop 1 (lines ! nat line) @ [CHR 0x0A])
               = Some ((content @ [CHR 0x00] @ drop 1 (lines ! nat line) @ [CHR 0x0A]) @ stripped lines (line + 1) to)"
    proof (rule "1.IH" [OF True idx len])
      show "0 \<le> line + 1" using "1.prems" by simp
      show "to \<le> int (length lines)" using "1.prems" by simp
      show "\<forall>j. nat (line + 1) \<le> j \<and> int j < to \<longrightarrow> lines ! j \<noteq> []"
        using "1.prems" by auto
    qed
    have upt: "[nat line..<nat to] = nat line # [nat (line + 1)..<nat to]"
      using True "1.prems" by (simp add: upt_conv_Cons nat_add_distrib)
    have "stripped lines line to
          = (CHR 0x00 # drop 1 (lines ! nat line) @ [CHR 0x0A]) @ stripped lines (line + 1) to"
      unfolding stripped_def upt by simp
    then show ?thesis
      using True idx len rec
      by (simp add: content_loop.simps [of lines line to content])
  qed
qed


lemma pending_okD:
  "pending_ok lines n m \<Longrightarrow> m \<noteq> - 1 \<Longrightarrow>
   0 \<le> m \<and> m < int n \<and> (\<forall>j. nat m \<le> j \<and> j < n \<longrightarrow> lines ! j \<noteq> [])"
  by (simp add: pending_ok_def)

lemma hunk_bounds:
  assumes "scan_inv lines n st" and "lastDel st \<noteq> - 1 \<or> lastIns st \<noteq> - 1"
  shows "0 \<le> hunk_old st" and "hunk_old st < int n"
    and "0 \<le> hunk_new st n" and "hunk_new st n \<le> int n"
    and "\<forall>j. nat (hunk_old st) \<le> j \<and> int j < hunk_new st n \<longrightarrow> lines ! j \<noteq> []"
    and "\<forall>j. nat (hunk_new st n) \<le> j \<and> int j < int n \<longrightarrow> lines ! j \<noteq> []"
proof -
  have d: "lastDel st \<noteq> - 1 \<Longrightarrow>
           0 \<le> lastDel st \<and> lastDel st < int n \<and> (\<forall>j. nat (lastDel st) \<le> j \<and> j < n \<longrightarrow> lines ! j \<noteq> [])"
    using assms(1) pending_okD [of lines n "lastDel st"] by (simp add: scan_inv_def)
  have i: "lastIns st \<noteq> - 1 \<Longrightarrow>
           0 \<le> lastIns st \<and> lastIns st < int n \<and> (\<forall>j. nat (lastIns st) \<le> j \<and> j < n \<longrightarrow> lines ! j \<noteq> [])"
    using assms(1) pending_okD [of lines n "lastIns st"] by (simp add: scan_inv_def)
  show "0 \<le> hunk_old st" "hunk_old st < int n"
    using d i assms(2) by (auto simp: hunk_old_def)
  show "0 \<le> hunk_new st n" "hunk_new st n \<le> int n"
    using d i assms(2) by (auto simp: hunk_new_def)
  show "\<forall>j. nat (hunk_old st) \<le> j \<and> int j < hunk_new st n \<longrightarrow> lines ! j \<noteq> []"
  proof (cases "lastDel st = - 1")
    case True
    then show ?thesis by (auto simp: hunk_old_def hunk_new_def)
  next
    case False
    with d have "\<forall>j. nat (lastDel st) \<le> j \<and> j < n \<longrightarrow> lines ! j \<noteq> []" by simp
    moreover have "hunk_new st n \<le> int n" by fact
    ultimately show ?thesis using False by (auto simp: hunk_old_def)
  qed
  show "\<forall>j. nat (hunk_new st n) \<le> j \<and> int j < int n \<longrightarrow> lines ! j \<noteq> []"
  proof (cases "lastIns st = - 1")
    case True
    with assms(2) show ?thesis by (auto simp: hunk_new_def)
  next
    case False
    with i have "\<forall>j. nat (lastIns st) \<le> j \<and> j < n \<longrightarrow> lines ! j \<noteq> []" by simp
    then show ?thesis using False by (auto simp: hunk_new_def)
  qed
qed

lemma close_hunk_alt:
  "close_hunk hdf lines lineStarts lineIndex st =
     do {
        beginOffsetLeft \<leftarrow> at_index lineStarts (hunk_old st);
        endOffsetLeft \<leftarrow> at_index lineStarts (hunk_new st lineIndex);
        beginOffsetRight \<leftarrow> at_index lineStarts (hunk_new st lineIndex);
        endOffsetRight \<leftarrow> at_index lineStarts (int lineIndex);
        anns2 \<leftarrow>
          (if CHR ''@'' \<noteq> lineFirstChar (lines ! lineIndex) then do {
             leftContent \<leftarrow> content_loop lines (hunk_old st) (hunk_new st lineIndex) [];
             rightContent \<leftarrow> content_loop lines (hunk_new st lineIndex) (int lineIndex) [];
             Some ((anns st @ [gd_block beginOffsetLeft endOffsetLeft,
                               gi_block beginOffsetRight endOffsetRight])
                   @ fst (hdf leftContent rightContent (beginOffsetLeft, beginOffsetRight))
                   @ snd (hdf leftContent rightContent (beginOffsetLeft, beginOffsetRight)))
           } else Some (anns st @ [gd_block beginOffsetLeft endOffsetLeft,
                               gi_block beginOffsetRight endOffsetRight]));
        Some \<lparr>lastDel = - 1, lastIns = - 1, anns = anns2\<rparr>
      }"
  unfolding close_hunk_def hunk_old_def hunk_new_def Let_def by (rule refl)

lemma close_hunk_value:
  assumes n: "n < length lines" and inv: "scan_inv lines n st"
    and pend: "lastDel st \<noteq> - 1 \<or> lastIns st \<noteq> - 1"
  shows "close_hunk hdf lines (lineStarts_from 0 lines) n st =
           Some \<lparr>lastDel = - 1, lastIns = - 1,
                  anns = anns st @ coarse_wrappers lines st n
                         @ (if lineFirstChar (lines ! n) = CHR ''@'' then []
                            else fine_pass hdf lines st n)\<rparr>"
proof -
  note b = hunk_bounds [OF inv pend]
  have i1: "at_index (lineStarts_from 0 lines) (hunk_old st)
            = Some (lineStarts_from 0 lines ! nat (hunk_old st))"
    using b(1,2) n by (simp add: at_index_def)
  have i2: "at_index (lineStarts_from 0 lines) (hunk_new st n)
            = Some (lineStarts_from 0 lines ! nat (hunk_new st n))"
    using b(3,4) n by (simp add: at_index_def)
  have i3: "at_index (lineStarts_from 0 lines) (int n) = Some (lineStarts_from 0 lines ! n)"
    using n by (simp add: at_index_def)
  have c1: "content_loop lines (hunk_old st) (hunk_new st n) [] 
            = Some (stripped lines (hunk_old st) (hunk_new st n))"
    using content_loop_value [OF b(1) _ b(5), of "[]"] b(4) n by simp
  have c2: "content_loop lines (hunk_new st n) (int n) [] 
            = Some (stripped lines (hunk_new st n) (int n))"
    using content_loop_value [OF b(3) _ b(6), of "[]"] n by simp
  show ?thesis
    unfolding close_hunk_alt i1 i2 i3 c1 c2
    by (simp add: coarse_wrappers_def fine_pass_def Let_def)
qed

lemma diff_body_inv:
  assumes n: "n < length lines" and inv: "scan_inv lines n st"
  shows "\<exists>st'. diff_body hdf lines (lineStarts_from 0 lines) n st = Some st'
               \<and> scan_inv lines (Suc n) st'"
proof -
  have mono: "pending_ok lines (Suc n) m" if "pending_ok lines n m" "lines ! n \<noteq> []" for m
    using that by (auto simp: pending_ok_def less_Suc_eq)
  have fresh: "pending_ok lines (Suc n) (int n)" if "lines ! n \<noteq> []"
    using that by (auto simp: pending_ok_def less_Suc_eq)
  have ne: "lines ! n \<noteq> []"
    if "lineFirstChar (lines ! n) = CHR ''+'' \<or> lineFirstChar (lines ! n) = CHR ''-''"
    using that by (auto simp: lineFirstChar_def split: if_splits)
  have unset: "pending_ok lines k (- 1)" for k by (simp add: pending_ok_def)
  consider (plus) "lineFirstChar (lines ! n) = CHR ''+''"
    | (minus) "lineFirstChar (lines ! n) \<noteq> CHR ''+''" "lineFirstChar (lines ! n) = CHR ''-''"
    | (close) "lineFirstChar (lines ! n) \<noteq> CHR ''+''" "lineFirstChar (lines ! n) \<noteq> CHR ''-''"
        "lastDel st \<noteq> - 1 \<or> lastIns st \<noteq> - 1"
    | (idle) "lineFirstChar (lines ! n) \<noteq> CHR ''+''" "lineFirstChar (lines ! n) \<noteq> CHR ''-''"
        "lastDel st = - 1" "lastIns st = - 1"
    by blast
  then show ?thesis
  proof cases
    case plus
    then show ?thesis
      using inv mono fresh ne by (auto simp: diff_body_def scan_inv_def)
  next
    case minus
    then show ?thesis
      using inv mono fresh ne by (auto simp: diff_body_def scan_inv_def)
  next
    case close
    then show ?thesis
      using close_hunk_value [OF n inv close(3), of hdf] unset
      by (simp add: diff_body_def scan_inv_def)
  next
    case idle
    then show ?thesis
      using unset by (simp add: diff_body_def scan_inv_def)
  qed
qed

lemma diff_scan_0: "diff_scan hdf lines anns0 0 = Some \<lparr>lastDel = - 1, lastIns = - 1, anns = anns0\<rparr>"
  by (simp add: diff_scan_def)

lemma diff_scan_Suc:
  "diff_scan hdf lines anns0 (Suc n) =
     Option.bind (diff_scan hdf lines anns0 n) (diff_body hdf lines (lineStarts_from 0 lines) n)"
  by (simp add: diff_scan_def)

lemma diff_scan_inv:
  "n \<le> length lines \<Longrightarrow>
   \<exists>st. diff_scan hdf lines anns0 n = Some st \<and> scan_inv lines n st"
proof (induction n)
  case 0
  then show ?case by (simp add: diff_scan_0 scan_inv_def pending_ok_def)
next
  case (Suc n)
  then obtain st where st: "diff_scan hdf lines anns0 n = Some st" "scan_inv lines n st"
    by auto
  from Suc.prems have "n < length lines" by simp
  from diff_body_inv [OF this st(2), of hdf] show ?case
    by (simp add: diff_scan_Suc st(1))
qed


section \<open>Diff segmentation on concrete inputs\<close>

lemmas scan_eval = split_nl_def diff_anns_def diff_scan_def diff_body_def lineFirstChar_def close_hunk_def
  at_index_def content_loop.simps Let_def

text \<open>
  Claim C7. The block with the lines \<open>-a\<close>, \<open>-b\<close>, \<open>+c\<close>, \<open>+d\<close>, \<open>e\<close> (which start at
  the bytes 0, 3, 6, 9, 12) yields one hunk: the removal wrapper over the bytes \<open>[0, 6)\<close> of
  lines 0 and 1, the addition wrapper over the bytes \<open>[6, 12)\<close> of lines 2 and 3, and one
  call of the intra-line pass; line 4, at byte 12, is outside. The pure deletion \<open>-a\<close>,
  \<open>-b\<close>, \<open>e\<close> yields the removal wrapper over \<open>[0, 6)\<close> and the empty addition wrapper
  \<open>[6, 6)\<close>.
\<close>

theorem segmenter_examples:
  "split_nl ''-a\<newline>-b\<newline>+c\<newline>+d\<newline>e'' = [''-a'', ''-b'', ''+c'', ''+d'', ''e'']
   \<and> lineStarts_from 0 [''-a'', ''-b'', ''+c'', ''+d'', ''e''] = [0, 3, 6, 9, 12]
   \<and> diff_anns hdf ''-a\<newline>-b\<newline>+c\<newline>+d\<newline>e'' anns0 =
       Some (anns0 @ [gd_block 0 6, gi_block 6 12]
             @ fst (hdf (CHR 0x00 # ''a\<newline>'' @ CHR 0x00 # ''b\<newline>'')
                        (CHR 0x00 # ''c\<newline>'' @ CHR 0x00 # ''d\<newline>'') (0, 6))
             @ snd (hdf (CHR 0x00 # ''a\<newline>'' @ CHR 0x00 # ''b\<newline>'')
                        (CHR 0x00 # ''c\<newline>'' @ CHR 0x00 # ''d\<newline>'') (0, 6)))
   \<and> split_nl ''-a\<newline>-b\<newline>e'' = [''-a'', ''-b'', ''e'']
   \<and> diff_anns hdf ''-a\<newline>-b\<newline>e'' anns0 =
       Some (anns0 @ [gd_block 0 6, gi_block 6 6]
             @ fst (hdf (CHR 0x00 # ''a\<newline>'' @ CHR 0x00 # ''b\<newline>'') [] (0, 6))
             @ snd (hdf (CHR 0x00 # ''a\<newline>'' @ CHR 0x00 # ''b\<newline>'') [] (0, 6)))"
  by (simp add: scan_eval)

text \<open>
  Claim C5 fails on the newline-terminated block \<open>+a\<close>, \<open>-b\<close>, where an added line
  precedes a removed one: when the final empty line closes the run, the removal wrapper
  runs from byte 3 back to byte 0.
\<close>

theorem added_before_removed_inverts_range:
  "diff_anns hdf ''+a\<newline>-b\<newline>'' anns0 =
     Some (anns0 @ [gd_block 3 0, gi_block 0 6]
           @ fst (hdf [] (CHR 0x00 # ''a\<newline>'' @ CHR 0x00 # ''b\<newline>'') (3, 0))
           @ snd (hdf [] (CHR 0x00 # ''a\<newline>'' @ CHR 0x00 # ''b\<newline>'') (3, 0)))
   \<and> End (gd_block 3 0) < Start (gd_block 3 0)"
  by (simp add: scan_eval gd_block_def)

section \<open>Language tags on concrete inputs\<close>

text \<open>
  Claim C3 fails on the info string \<open>diff\<close>, which has no whitespace: \<open>findLang\<close>
  returns the empty tag where the claim (and \<open>appendLanguageAttr\<close>) take the whole string.
\<close>

theorem findLang_without_whitespace:
  \<open>findLang ''diff'' = [] \<and> spec_tag ''diff'' = ''diff''
   \<and> appendLanguageAttr [] ''diff'' = [''class="highlight'', ''highlight-diff"'']\<close>
  by (simp add: findLang_def spec_tag_def appendLanguageAttr_def slice_def)

section \<open>Headings\<close>

text \<open>
  Claim C1 fails on the level-1 heading with the inline content \<open>Hello\<close>: for any
  collaborators, \<open>heading\<close> writes the anchor element and then closes the heading at
  once (and appends a newline); the inline content, which the contract places between the
  anchor and the closing tag, is not written.
\<close>

theorem heading_omits_inline_content: \<open>heading ext [] hello_heading entering
      = (heading_contract 1 (anchorName ext hello_heading) [] @ ''\<newline>'', GoToNext)
    \<and> heading_contract 1 (anchorName ext hello_heading) [] @ ''\<newline>''
        \<noteq> heading_contract 1 (anchorName ext hello_heading) ''Hello''\<close>
  by (simp add: heading_def heading_contract_def hello_heading_def Let_def)

section \<open>Code blocks\<close>

lemma diff_anns_total: "\<exists>anns1. diff_anns hdf src anns0 = Some anns1"
  using diff_scan_inv [of "length (split_nl src)" "split_nl src" hdf anns0]
  by (auto simp: diff_anns_def)

lemma highlightCode_diff:
  assumes "highlight_diff_Annotate ext src = Some anns0"
    and "diff_anns (HighlightedDiffFunc ext) src anns0 = Some anns1"
  shows "highlightCode ext src ''diff'' =
           (case annotate_Annotate ext src (sort_Sort ext anns1) of
              None \<Rightarrow> Some ([], False)
            | Some out \<Rightarrow> Some (out, True))"
  using assms by (simp add: highlightCode_def)

lemma highlightCode_total: "\<exists>r. highlightCode ext src lang = Some r"
proof (cases "lang = ''diff''")
  case False
  then show ?thesis by (auto simp: highlightCode_def split: option.splits)
next
  case True
  show ?thesis
  proof (cases "highlight_diff_Annotate ext src")
    case None
    with True show ?thesis by (auto simp: highlightCode_def)
  next
    case (Some anns0)
    obtain anns1 where "diff_anns (HighlightedDiffFunc ext) src anns0 = Some anns1"
      using diff_anns_total by blast
    from highlightCode_diff [OF Some this] True show ?thesis
      by (auto split: option.splits)
  qed
qed

lemma highlightCode_empty: "highlightCode ext src [] = Some ([], False)"
  by (simp add: highlightCode_def)

lemma codeblock_value:
  assumes "Parent node \<noteq> None"
  shows \<open>codeblock ext w node entering =
     Some (w @ (if findLang (Info node) = [] then ''<pre><code>''
                else ''<div class="highlight highlight-'' @ findLang (Info node) @ ''">'')
             @ block_body ext (Literal node) (findLang (Info node))
             @ (if findLang (Info node) = [] then ''</code></pre>'' else ''</pre></div>''),
           GoToNext)\<close>
proof -
  obtain h ok where hc: "highlightCode ext (Literal node) (findLang (Info node)) = Some (h, ok)"
    using highlightCode_total [of ext "Literal node" "findLang (Info node)"] by auto
  obtain p where p: "Parent node = Some p" using assms by auto
  have body: "(if ok then x @ h else attrEscape x (Literal node))
              = x @ block_body ext (Literal node) (findLang (Info node))" for x
    by (simp add: block_body_def hc attrEscape_appends)
  show ?thesis
    by (simp add: codeblock_def Let_def hc p body)
qed


text \<open>
  Claim C2 as stated fails. A block tagged \<open>python\<close>, which no highlighter recognizes, is
  wrapped in the \<open>highlight-python\<close> division, not in \<open>pre/code\<close>: the wrapper is chosen by
  whether the tag is empty. A block tagged \<open>Go\<close>, which is recognized and highlighted,
  has no opening \<open>pre\<close> after the division.
\<close>

theorem codeblock_contract_counterexample:
  \<open>codeblock sample_ext [] (code_node ''python 3'' ''1 < 2\<newline>'') True
     = Some (''<div class="highlight highlight-python">1 &lt; 2\<newline></pre></div>'', GoToNext)
   \<and> highlightCode sample_ext ''1 < 2\<newline>'' ''python'' = Some ([], False)
   \<and> ''<div class="highlight highlight-python">1 &lt; 2\<newline></pre></div>''
       \<noteq> codeblock_contract False ''python'' (concat (map escape_byte ''1 < 2\<newline>''))
   \<and> codeblock sample_ext [] (code_node ''Go 1'' ''1 < 2\<newline>'') True
     = Some (''<div class="highlight highlight-Go">1 &lt; 2\<newline></pre></div>'', GoToNext)
   \<and> highlightCode sample_ext ''1 < 2\<newline>'' ''Go'' = Some (''1 &lt; 2\<newline>'', True)
   \<and> ''<div class="highlight highlight-Go">1 &lt; 2\<newline></pre></div>''
       \<noteq> codeblock_contract True ''Go'' ''1 &lt; 2\<newline>''\<close>
  by (simp add: codeblock_def code_node_def findLang_def slice_def highlightCode_def
      sample_ext_def attrEscape_appends escape_byte_def codeblock_contract_def)

text \<open>
  Claim C2, amended. For every code block with a parent node: when the tag \<open>findLang\<close>
  computes is empty, the output is exactly \<open>pre/code\<close> around the escaped source; when the
  tag is non-empty, recognized or not, the output begins with the \<open>highlight-lang\<close>
  division and ends with the block's body (highlighted when a highlighter succeeds, escaped
  otherwise) followed by the closing \<open>pre\<close> and \<open>div\<close>.
\<close>

theorem codeblock_wrapper_by_tag:
  assumes "Parent node \<noteq> None"
  shows \<open>\<exists>mid. codeblock ext w node entering =
     Some (w @ (if findLang (Info node) = []
                then ''<pre><code>'' @ concat (map escape_byte (Literal node)) @ ''</code></pre>''
                else ''<div class="highlight highlight-'' @ findLang (Info node) @ ''">'' @ mid
                     @ block_body ext (Literal node) (findLang (Info node)) @ ''</pre></div>''),
           GoToNext)\<close> (is "\<exists>mid. ?P mid")
proof -
  have "block_body ext (Literal node) (findLang (Info node)) = concat (map escape_byte (Literal node))"
    if "findLang (Info node) = []"
    using that by (simp add: block_body_def highlightCode_empty)
  with codeblock_value [OF assms, of ext w entering] have "?P []"
    by simp
  then show ?thesis by (rule exI [of ?P])
qed

text \<open>The amended claim at the block tagged \<open>python\<close>.\<close>

theorem codeblock_wrapper_by_tag_witness:
  \<open>Parent (code_node ''python 3'' ''1 < 2\<newline>'') \<noteq> None \<and>
   (\<exists>mid. codeblock sample_ext [] (code_node ''python 3'' ''1 < 2\<newline>'') True =
     Some (''<div class="highlight highlight-python">'' @ mid @ ''1 &lt; 2\<newline></pre></div>'', GoToNext))\<close>
proof -
  have p: "Parent (code_node ''python 3'' ''1 < 2\<newline>'') \<noteq> None"
    by (simp add: code_node_def)
  have t: "findLang (Info (code_node ''python 3'' ''1 < 2\<newline>'')) = ''python''"
    by (simp add: code_node_def findLang_def slice_def)
  have b: "block_body sample_ext (Literal (code_node ''python 3'' ''1 < 2\<newline>'')) ''python''
           = ''1 &lt; 2\<newline>''"
    by (simp add: block_body_def highlightCode_def code_node_def escape_byte_def)
  show ?thesis
    using p codeblock_wrapper_by_tag [OF p, of sample_ext "[]" True] unfolding t b by simp
qed

lemma highlighter_error_result:
  assumes "highlighter_error ext src lang"
  shows "lang \<noteq> [] \<and> highlightCode ext src lang = Some ([], False)"
proof (cases "lang = ''diff''")
  case False
  with assms have "(lang = ''Go'' \<or> lang = ''Go-unformatted'') \<and> highlight_go_Print ext src = None"
    by (simp add: highlighter_error_def)
  then show ?thesis by (auto simp: highlightCode_def)
next
  case True
  show ?thesis
  proof (cases "highlight_diff_Annotate ext src")
    case None
    with True show ?thesis by (simp add: highlightCode_def)
  next
    case (Some anns0)
    obtain anns1 where a1: "diff_anns (HighlightedDiffFunc ext) src anns0 = Some anns1"
      using diff_anns_total by blast
    from assms True Some a1 have "annotate_Annotate ext src (sort_Sort ext anns1) = None"
      by (simp add: highlighter_error_def)
    with highlightCode_diff [OF Some a1] True show ?thesis by simp
  qed
qed

text \<open>
  Claim C8. For a code block (with a parent node) whose language-specific highlighter
  returns an error, \<open>RenderNode\<close> returns normally with \<open>GoToNext\<close>, and the block is the
  escaped source inside the same \<open>highlight-lang\<close> wrapper.
\<close>

theorem highlighter_error_falls_back:
  assumes "Type node = CodeBlock" and "Parent node \<noteq> None"
    and "highlighter_error ext (Literal node) (findLang (Info node))"
  shows \<open>RenderNode ext w node entering =
     Some (w @ ''<div class="highlight highlight-'' @ findLang (Info node) @ ''">''
             @ concat (map escape_byte (Literal node)) @ ''</pre></div>'', GoToNext)\<close>
proof -
  from highlighter_error_result [OF assms(3)]
  have ne: "findLang (Info node) \<noteq> []"
    and hc: "highlightCode ext (Literal node) (findLang (Info node)) = Some ([], False)"
    by simp_all
  from hc have "block_body ext (Literal node) (findLang (Info node))
             = concat (map escape_byte (Literal node))"
    by (simp add: block_body_def)
  with codeblock_value [OF assms(2), of ext w entering] ne assms(1) show ?thesis
    by (simp add: RenderNode_def)
qed


text \<open>The claim at a \<open>Go\<close> block whose highlighter fails.\<close>

theorem highlighter_error_falls_back_witness:
  \<open>Type (code_node ''Go 1'' ''a < b'') = CodeBlock \<and> Parent (code_node ''Go 1'' ''a < b'') \<noteq> None
   \<and> highlighter_error failing_ext (Literal (code_node ''Go 1'' ''a < b''))
         (findLang (Info (code_node ''Go 1'' ''a < b'')))
   \<and> RenderNode failing_ext [] (code_node ''Go 1'' ''a < b'') True =
       Some (''<div class="highlight highlight-Go">a &lt; b</pre></div>'', GoToNext)\<close>
proof -
  have t: "Type (code_node ''Go 1'' ''a < b'') = CodeBlock" by (simp add: code_node_def)
  have p: "Parent (code_node ''Go 1'' ''a < b'') \<noteq> None" by (simp add: code_node_def)
  have l: "findLang (Info (code_node ''Go 1'' ''a < b'')) = ''Go''"
    by (simp add: code_node_def findLang_def slice_def)
  have e: "highlighter_error failing_ext (Literal (code_node ''Go 1'' ''a < b''))
             (findLang (Info (code_node ''Go 1'' ''a < b'')))"
    unfolding l by (simp add: highlighter_error_def failing_ext_def sample_ext_def)
  have s: "Literal (code_node ''Go 1'' ''a < b'') = ''a < b''" by (simp add: code_node_def)
  have \<open>RenderNode failing_ext [] (code_node ''Go 1'' ''a < b'') True =
       Some (''<div class="highlight highlight-Go">a &lt; b</pre></div>'', GoToNext)\<close>
    using highlighter_error_falls_back [OF t p e, of "[]" True] unfolding l s
    by (simp add: escape_byte_def)
  with t p e show ?thesis by (intro conjI)
qed

section \<open>Closing a hunk\<close>

lemma lineStarts_agree:
  assumes "k < length lines" and "k < length lines'"
    and "\<forall>j<k. lines' ! j = lines ! j"
  shows "lineStarts_from 0 lines' ! k = lineStarts_from 0 lines ! k"
proof -
  have "(\<Sum>j<k. int (length (lines' ! j)) + 1) = (\<Sum>j<k. int (length (lines ! j)) + 1)"
    using assms(3) by (intro sum.cong) auto
  then show ?thesis
    using assms(1,2) by (simp add: lineStarts_from_nth)
qed

lemma stripped_agree:
  assumes "b \<le> int n" and "\<forall>j<n. lines' ! j = lines ! j"
  shows "stripped lines' a b = stripped lines a b"
proof -
  have "map (\<lambda>j. CHR 0x00 # drop 1 (lines' ! j) @ [CHR 0x0A]) [nat a..<nat b]
        = map (\<lambda>j. CHR 0x00 # drop 1 (lines ! j) @ [CHR 0x0A]) [nat a..<nat b]"
    by (rule map_cong [OF refl]) (use assms in auto)
  then show ?thesis unfolding stripped_def by (rule arg_cong)
qed

lemma scan_inv_agree:
  assumes "scan_inv lines n st" and "\<forall>j<n. lines' ! j = lines ! j"
  shows "scan_inv lines' n st"
  using assms by (auto simp: scan_inv_def pending_ok_def)

lemma closed_anns_agree:
  assumes n: "n < length lines" and n': "n < length lines'"
    and eq: "\<forall>j<n. lines' ! j = lines ! j"
    and inv: "scan_inv lines n st" and pend: "lastDel st \<noteq> - 1 \<or> lastIns st \<noteq> - 1"
  shows "coarse_wrappers lines' st n = coarse_wrappers lines st n"
    and "fine_pass hdf lines' st n = fine_pass hdf lines st n"
proof -
  note b = hunk_bounds [OF inv pend]
  have o: "lineStarts_from 0 lines' ! nat (hunk_old st) = lineStarts_from 0 lines ! nat (hunk_old st)"
    using b(1,2) n n' eq by (intro lineStarts_agree) auto
  have w: "lineStarts_from 0 lines' ! nat (hunk_new st n) = lineStarts_from 0 lines ! nat (hunk_new st n)"
    using b(3,4) n n' eq by (intro lineStarts_agree) auto
  have c: "lineStarts_from 0 lines' ! n = lineStarts_from 0 lines ! n"
    using n n' eq by (intro lineStarts_agree) auto
  have s1: "stripped lines' (hunk_old st) (hunk_new st n) = stripped lines (hunk_old st) (hunk_new st n)"
    using b(4) eq by (rule stripped_agree)
  have s2: "stripped lines' (hunk_new st n) (int n) = stripped lines (hunk_new st n) (int n)"
    using eq by (intro stripped_agree [of _ n]) auto
  show "coarse_wrappers lines' st n = coarse_wrappers lines st n"
    by (simp add: coarse_wrappers_def Let_def o w c)
  show "fine_pass hdf lines' st n = fine_pass hdf lines st n"
    by (simp add: fine_pass_def Let_def o w s1 s2)
qed

lemma diff_body_agree:
  assumes n: "n < length lines" and n': "n < length lines'"
    and eq: "\<forall>j<n. lines' ! j = lines ! j"
    and inv: "scan_inv lines n st"
    and plus: "lineFirstChar (lines' ! n) = CHR ''+'' \<longleftrightarrow> lineFirstChar (lines ! n) = CHR ''+''"
    and minus: "lineFirstChar (lines' ! n) = CHR ''-'' \<longleftrightarrow> lineFirstChar (lines ! n) = CHR ''-''"
    and at: "lineFirstChar (lines' ! n) = CHR ''@'' \<longleftrightarrow> lineFirstChar (lines ! n) = CHR ''@''"
  shows "diff_body hdf lines' (lineStarts_from 0 lines') n st
         = diff_body hdf lines (lineStarts_from 0 lines) n st"
proof (cases "lastDel st \<noteq> - 1 \<or> lastIns st \<noteq> - 1")
  case False
  then show ?thesis using plus minus by (simp add: diff_body_def)
next
  case True
  have inv': "scan_inv lines' n st" using inv eq by (rule scan_inv_agree)
  have "close_hunk hdf lines' (lineStarts_from 0 lines') n st
        = close_hunk hdf lines (lineStarts_from 0 lines) n st"
    unfolding close_hunk_value [OF n' inv' True] close_hunk_value [OF n inv True]
    using closed_anns_agree [OF n n' eq inv True] at by simp
  then show ?thesis using plus minus by (simp add: diff_body_def)
qed

lemma diff_scan_agree:
  "n \<le> length lines \<Longrightarrow> n \<le> length lines' \<Longrightarrow>
   \<forall>j<n. lines' ! j = lines ! j \<Longrightarrow>
   diff_scan hdf lines' anns0 n = diff_scan hdf lines anns0 n"
proof (induction n)
  case 0
  then show ?case by (simp add: diff_scan_0)
next
  case (Suc n)
  then have ih: "diff_scan hdf lines' anns0 n = diff_scan hdf lines anns0 n" by simp
  from Suc.prems have n: "n < length lines" and n': "n < length lines'" by simp_all
  obtain st where st: "diff_scan hdf lines anns0 n = Some st" "scan_inv lines n st"
    using diff_scan_inv [of n lines hdf anns0] n by auto
  have "diff_body hdf lines' (lineStarts_from 0 lines') n st
        = diff_body hdf lines (lineStarts_from 0 lines) n st"
    using n n' _ st(2)
  proof (rule diff_body_agree)
    show "\<forall>j<n. lines' ! j = lines ! j" using Suc.prems(3) by simp
  qed (use Suc.prems(3) in simp_all)
  then show ?case by (simp add: diff_scan_Suc ih st(1))
qed

text \<open>
  Claim C4 as stated fails on the block \<open>-a\<close>, \<open>+b\<close>, \<open>@@ -1 +1 @@\<close>: the first line of
  the removal block is \<open>-a\<close>, which does not start with \<open>@\<close>, yet the hunk gets the two
  wrappers only, although the intra-line highlighter would return segments for it.
\<close>

theorem fine_pass_skipped_counterexample: "lineFirstChar ''-a'' \<noteq> CHR ''@'' \<and> 
  diff_anns sample_hdf ''-a\<newline>+b\<newline>@@ -1 +1 @@\<newline>'' [] = Some [gd_block 0 3, gi_block 3 6]
  \<and> fst (sample_hdf (CHR 0x00 # ''a\<newline>'') (CHR 0x00 # ''b\<newline>'') (0, 3)) \<noteq> []"
  by (simp add: scan_eval sample_hdf_def)

text \<open>
  Claim C4, amended. The guard looks at the line that closes the hunk. When a run is
  pending before a line that starts with neither \<open>+\<close> nor \<open>-\<close>, the scan appends the two
  coarse wrappers; it appends nothing else when that closing line starts with \<open>@\<close>, and
  the segments of the intra-line pass when it starts with any other byte or is empty.
\<close>

theorem closing_line_guards_fine_pass:
  assumes "lineIndex < length lines"
    and "diff_scan hdf lines anns0 lineIndex = Some st"
    and "lastDel st \<noteq> - 1 \<or> lastIns st \<noteq> - 1"
    and "lineFirstChar (lines ! lineIndex) \<noteq> CHR ''+''"
    and "lineFirstChar (lines ! lineIndex) \<noteq> CHR ''-''"
  shows "diff_scan hdf lines anns0 (Suc lineIndex) =
           Some \<lparr>lastDel = - 1, lastIns = - 1,
                  anns = anns st @ coarse_wrappers lines st lineIndex
                         @ (if lineFirstChar (lines ! lineIndex) = CHR ''@'' then []
                            else fine_pass hdf lines st lineIndex)\<rparr>"
proof -
  have inv: "scan_inv lines lineIndex st"
    using diff_scan_inv [of lineIndex lines hdf anns0] assms(1,2) by auto
  have "diff_body hdf lines (lineStarts_from 0 lines) lineIndex st
        = close_hunk hdf lines (lineStarts_from 0 lines) lineIndex st"
    using assms(3,4,5) by (simp add: diff_body_def)
  then show ?thesis
    by (simp add: diff_scan_Suc assms(2) close_hunk_value [OF assms(1) inv assms(3)])
qed


text \<open>The amended claim at the hunk \<open>-a\<close>, \<open>+b\<close> closed by a header line.\<close>

theorem closing_line_guards_fine_pass_witness:
  "2 < length [''-a'', ''+b'', ''@@ -1 +1 @@'']
   \<and> diff_scan sample_hdf [''-a'', ''+b'', ''@@ -1 +1 @@''] [] 2 = Some \<lparr>lastDel = 0, lastIns = 1, anns = []\<rparr>
   \<and> lastDel \<lparr>lastDel = 0, lastIns = 1, anns = []\<rparr> \<noteq> - 1
   \<and> lineFirstChar ([''-a'', ''+b'', ''@@ -1 +1 @@''] ! 2) \<noteq> CHR ''+''
   \<and> lineFirstChar ([''-a'', ''+b'', ''@@ -1 +1 @@''] ! 2) \<noteq> CHR ''-''
   \<and> diff_scan sample_hdf [''-a'', ''+b'', ''@@ -1 +1 @@''] [] (Suc 2)
       = Some \<lparr>lastDel = - 1, lastIns = - 1, anns = [gd_block 0 3, gi_block 3 6]\<rparr>"
proof -
  let ?L = "[''-a'', ''+b'', ''@@ -1 +1 @@'']"
  let ?st = "\<lparr>lastDel = 0, lastIns = 1, anns = []\<rparr>"
  have h1: "2 < length ?L" by simp
  have h2: "diff_scan sample_hdf ?L [] 2 = Some ?st"
    by (simp add: diff_scan_def diff_body_def lineFirstChar_def eval_nat_numeral)
  have h3: "lastDel ?st \<noteq> - 1 \<or> lastIns ?st \<noteq> - 1" by simp
  have h4: "lineFirstChar (?L ! 2) \<noteq> CHR ''+''" by (simp add: lineFirstChar_def)
  have h5: "lineFirstChar (?L ! 2) \<noteq> CHR ''-''" by (simp add: lineFirstChar_def)
  have c: "diff_scan sample_hdf ?L [] (Suc 2)
           = Some \<lparr>lastDel = - 1, lastIns = - 1, anns = [gd_block 0 3, gi_block 3 6]\<rparr>"
    using closing_line_guards_fine_pass [OF h1 h2 h3 h4 h5]
    by (simp add: coarse_wrappers_def hunk_old_def hunk_new_def lineFirstChar_def)
  have h3': "lastDel ?st \<noteq> - 1" by simp
  from h1 h2 h3' h4 h5 c show ?thesis by (intro conjI)
qed

section \<open>The end of the input\<close>










section \<open>Empty lines\<close>

text \<open>
  Claim C10. An empty line is neither an added nor a removed line. Where \<open>st\<close> is the
  state of the scan before an empty line, the scan through that line ends with both
  markers unset and, when a run was pending in \<open>st\<close>, with the two coarse wrappers of that
  run and the segments of the intra-line pass appended (nothing is appended when no run
  was pending); and the scan with a context line (any first byte other than \<open>+\<close>, \<open>-\<close>,
  \<open>@\<close>) in place of the empty line gives the same result.
\<close>

theorem empty_line_closes_run:
  assumes "lineIndex < length lines" and "lines ! lineIndex = []"
    and "c \<noteq> CHR ''+''" and "c \<noteq> CHR ''-''" and "c \<noteq> CHR ''@''"
    and "diff_scan hdf lines anns0 lineIndex = Some st"
  shows "lineFirstChar (lines ! lineIndex) \<noteq> CHR ''+'' \<and> lineFirstChar (lines ! lineIndex) \<noteq> CHR ''-''
    \<and> diff_scan hdf lines anns0 (Suc lineIndex) =
        Some \<lparr>lastDel = - 1, lastIns = - 1,
               anns = anns st @ (if lastDel st \<noteq> - 1 \<or> lastIns st \<noteq> - 1
                                 then coarse_wrappers lines st lineIndex
                                      @ fine_pass hdf lines st lineIndex
                                 else [])\<rparr>
    \<and> diff_scan hdf (lines[lineIndex := c # r]) anns0 (Suc lineIndex)
        = diff_scan hdf lines anns0 (Suc lineIndex)"
proof -
  let ?lines' = "lines[lineIndex := c # r]"
  have fc: "lineFirstChar (lines ! lineIndex) = CHR 0x00"
    using assms(2) by (simp add: lineFirstChar_def)
  have fc': "lineFirstChar (?lines' ! lineIndex) = c"
    using assms(1) by (simp add: lineFirstChar_def)
  have inv: "scan_inv lines lineIndex st"
    using diff_scan_inv [of lineIndex lines hdf anns0] assms(1,6) by auto
  have pre: "diff_scan hdf ?lines' anns0 lineIndex = diff_scan hdf lines anns0 lineIndex"
    using assms(1) by (intro diff_scan_agree) auto
  have body: "diff_body hdf ?lines' (lineStarts_from 0 ?lines') lineIndex st
        = diff_body hdf lines (lineStarts_from 0 lines) lineIndex st"
    using assms(1) _ _ inv
  proof (rule diff_body_agree)
    show "lineIndex < length ?lines'" using assms(1) by simp
    show "\<forall>j<lineIndex. ?lines' ! j = lines ! j" by simp
  qed (use fc fc' assms(3,4,5) in simp_all)
  have same: "diff_scan hdf ?lines' anns0 (Suc lineIndex) = diff_scan hdf lines anns0 (Suc lineIndex)"
    by (simp add: diff_scan_Suc pre assms(6) body)
  have "diff_body hdf lines (lineStarts_from 0 lines) lineIndex st =
        Some \<lparr>lastDel = - 1, lastIns = - 1,
               anns = anns st @ (if lastDel st \<noteq> - 1 \<or> lastIns st \<noteq> - 1
                                 then coarse_wrappers lines st lineIndex
                                      @ fine_pass hdf lines st lineIndex
                                 else [])\<rparr>"
  proof (cases "lastDel st \<noteq> - 1 \<or> lastIns st \<noteq> - 1")
    case True
    then show ?thesis
      using fc close_hunk_value [OF assms(1) inv True, of hdf] by (simp add: diff_body_def)
  next
    case False
    then show ?thesis using fc by (simp add: diff_body_def)
  qed
  then have closed: "diff_scan hdf lines anns0 (Suc lineIndex) =
        Some \<lparr>lastDel = - 1, lastIns = - 1,
               anns = anns st @ (if lastDel st \<noteq> - 1 \<or> lastIns st \<noteq> - 1
                                 then coarse_wrappers lines st lineIndex
                                      @ fine_pass hdf lines st lineIndex
                                 else [])\<rparr>"
    by (simp add: diff_scan_Suc assms(6))
  have "lineFirstChar (lines ! lineIndex) \<noteq> CHR ''+''" "lineFirstChar (lines ! lineIndex) \<noteq> CHR ''-''"
    using fc by simp_all
  with closed same show ?thesis by (intro conjI)
qed


text \<open>
  The claim at the newline-terminated block \<open>-a\<close>, whose second line is empty: the run
  that \<open>-a\<close> opened is closed with the wrappers over \<open>[0, 3)\<close> and the empty \<open>[3, 3)\<close>.
\<close>

theorem empty_line_closes_run_witness:
  "1 < length [''-a'', ''''] \<and> [''-a'', ''''] ! 1 = []
   \<and> CHR '' '' \<noteq> CHR ''+'' \<and> CHR '' '' \<noteq> CHR ''-'' \<and> CHR '' '' \<noteq> CHR ''@''
   \<and> diff_scan sample_hdf [''-a'', ''''] [] 1 = Some \<lparr>lastDel = 0, lastIns = - 1, anns = []\<rparr>
   \<and> diff_scan sample_hdf [''-a'', ''''] [] (Suc 1) =
       Some \<lparr>lastDel = - 1, lastIns = - 1,
              anns = [gd_block 0 3, gi_block 3 3]
                     @ fst (sample_hdf (CHR 0x00 # ''a\<newline>'') [] (0, 3))
                     @ snd (sample_hdf (CHR 0x00 # ''a\<newline>'') [] (0, 3))\<rparr>
   \<and> diff_scan sample_hdf [''-a'', '' x''] [] (Suc 1) = diff_scan sample_hdf [''-a'', ''''] [] (Suc 1)"
proof -
  let ?st = "\<lparr>lastDel = 0, lastIns = - 1, anns = []\<rparr>"
  have h1: "1 < length [''-a'', '''']" by simp
  have h2: "[''-a'', ''''] ! 1 = []" by simp
  have h3: "CHR '' '' \<noteq> CHR ''+''" and h4: "CHR '' '' \<noteq> CHR ''-''" and h5: "CHR '' '' \<noteq> CHR ''@''"
    by simp_all
  have h6: "diff_scan sample_hdf [''-a'', ''''] [] 1 = Some ?st"
    by (simp add: diff_scan_def diff_body_def lineFirstChar_def)
  have u: "[''-a'', ''''][1 := CHR '' '' # ''x''] = [''-a'', '' x'']" by simp
  note c = empty_line_closes_run [OF h1 h2 h3 h4 h5 h6, of "''x''", unfolded u]
  have c1: "diff_scan sample_hdf [''-a'', ''''] [] (Suc 1) =
       Some \<lparr>lastDel = - 1, lastIns = - 1,
              anns = [gd_block 0 3, gi_block 3 3]
                     @ fst (sample_hdf (CHR 0x00 # ''a\<newline>'') [] (0, 3))
                     @ snd (sample_hdf (CHR 0x00 # ''a\<newline>'') [] (0, 3))\<rparr>"
    using c [THEN conjunct2, THEN conjunct2, THEN conjunct1]
    by (simp add: coarse_wrappers_def fine_pass_def hunk_old_def hunk_new_def stripped_def Let_def
        eval_nat_numeral)
  note c2 = c [THEN conjunct2, THEN conjunct2, THEN conjunct2]
  from h1 h2 h3 h4 h5 h6 c1 c2 show ?thesis by (intro conjI)
qed

end
